theory Spec2Isabelle
  imports Complex_Main "HOL-Library.Sublist"
begin

section \<open>Python string operations used by the client\<close>

text \<open>
  A Python \<open>str\<close> is modelled as a \<open>string\<close> (a list of characters); every character
  stands for one code point in the range 0..255. The operations below are the ones
  \<open>llama_client.py\<close> uses: \<open>sub in s\<close>, \<open>s.split(sep, 1)\<close>, \<open>s.endswith(p)\<close>,
  \<open>s.strip()\<close> and \<open>s.replace(old, new)\<close>.
\<close>

text \<open>\<open>s.find(sub)\<close>: the lowest index at which \<open>sub\<close> occurs in \<open>s\<close>, if any.\<close>

fun str_find :: "string \<Rightarrow> string \<Rightarrow> nat option" where
  "str_find sub [] = (if sub = [] then Some 0 else None)"
| "str_find sub (c # cs) =
     (if prefix sub (c # cs) then Some 0 else map_option Suc (str_find sub cs))"

text \<open>\<open>sub in s\<close>.\<close>

definition str_contains :: "string \<Rightarrow> string \<Rightarrow> bool" where
  "str_contains sub s = (str_find sub s \<noteq> None)"

text \<open>
  \<open>s.split(sep, 1)\<close> for a non-empty separator: at most one split, at the first
  occurrence of \<open>sep\<close>; the list has one element when \<open>sep\<close> does not occur.
\<close>

definition str_split1 :: "string \<Rightarrow> string \<Rightarrow> string list" where
  "str_split1 sep s =
     (case str_find sep s of
        None \<Rightarrow> [s]
      | Some i \<Rightarrow> [take i s, drop (i + length sep) s])"

text \<open>\<open>s.endswith(p)\<close>.\<close>

definition endswith :: "string \<Rightarrow> string \<Rightarrow> bool" where
  "endswith s p = (length p \<le> length s \<and> drop (length s - length p) s = p)"

text \<open>
  \<open>c.isspace()\<close> on the code points 0..255: TAB, LF, VT, FF, CR, the separators
  FS, GS, RS, US, the space, NEL and the no-break space.
\<close>

definition isspace :: "char \<Rightarrow> bool" where
  "isspace c = ((of_char c :: nat) \<in> {9, 10, 11, 12, 13, 28, 29, 30, 31, 32, 133, 160})"

text \<open>\<open>s.strip()\<close>: leading and trailing whitespace removed.\<close>

definition strip :: "string \<Rightarrow> string" where
  "strip s = rev (dropWhile isspace (rev (dropWhile isspace s)))"

text \<open>
  \<open>s.replace(old, new)\<close>: every occurrence of \<open>old\<close> is replaced, scanning from the left
  and resuming after each replaced occurrence. For an empty \<open>old\<close> Python puts \<open>new\<close>
  before every character and at the end.
\<close>

function str_replace :: "string \<Rightarrow> string \<Rightarrow> string \<Rightarrow> string" where
  "str_replace old new s =
     (if old = [] then new @ concat (map (\<lambda>c. c # new) s)
      else if s = [] then []
      else if prefix old s then new @ str_replace old new (drop (length old) s)
      else hd s # str_replace old new (tl s))"
  by pat_completeness auto
termination
  by (relation "measure (\<lambda>(old, new, s). length s)") auto

declare str_replace.simps [simp del]

section \<open>The final classifier\<close>

definition finish_marker :: string where
  "finish_marker = ''finish(message=''"

definition do_marker :: string where
  "do_marker = ''do(action=''"

definition answer_tag :: string where
  "answer_tag = ''<answer>''"

text \<open>
  \<open>LlamaModelClient._parse_response\<close>. The index \<open>1\<close> into the result of \<open>split\<close> is
  only taken after the test \<open>marker in content\<close>, where the list has two elements
  (lemma \<open>str_split1_length\<close> below).
\<close>

definition parse_response :: "string \<Rightarrow> string \<times> string" where
  "parse_response content =
     (if str_contains finish_marker content then
        (let parts = str_split1 finish_marker content
         in (strip (parts ! 0), finish_marker @ parts ! 1))
      else if str_contains do_marker content then
        (let parts = str_split1 do_marker content
         in (strip (parts ! 0), do_marker @ parts ! 1))
      else if str_contains answer_tag content then
        (let parts = str_split1 answer_tag content;
             thinking = strip (str_replace ''</think>'' '''' (str_replace ''<think>'' '''' (parts ! 0)));
             action = strip (str_replace ''</answer>'' '''' (parts ! 1))
         in (thinking, action))
      else ('''', content))"

section \<open>The event stream\<close>

text \<open>
  The value \<open>json.loads\<close> returns. \<open>JNum\<close> stands for a Python \<open>int\<close> or \<open>float\<close>;
  the client only looks at the type and the truth value of a number. \<open>JObj\<close> holds
  the items of a Python \<open>dict\<close>, whose keys are distinct.
\<close>

datatype json =
    JNull
  | JBool bool
  | JNum real
  | JStr string
  | JArr "json list"
  | JObj "(string \<times> json) list"

text \<open>
  One server-sent event, as the loop sees it: the sentinel \<open>[DONE]\<close>; data on which
  \<open>json.loads\<close> raises; data that \<open>json.loads\<close> parses.
\<close>

datatype sse_event = Done | Malformed | Payload json

text \<open>The exceptions the loop body can raise; none of them is caught.\<close>

datatype error = AttributeError | TypeError | KeyError | IndexError

text \<open>Python's truth value of a parsed JSON value (\<open>not x\<close>, \<open>x or y\<close>).\<close>

fun truthy :: "json \<Rightarrow> bool" where
  "truthy JNull = False"
| "truthy (JBool b) = b"
| "truthy (JNum x) = (x \<noteq> 0)"
| "truthy (JStr s) = (s \<noteq> [])"
| "truthy (JArr xs) = (xs \<noteq> [])"
| "truthy (JObj kvs) = (kvs \<noteq> [])"

text \<open>\<open>d.get(key, default)\<close>: only a \<open>dict\<close> has the method.\<close>

fun py_get :: "json \<Rightarrow> string \<Rightarrow> json \<Rightarrow> error + json" where
  "py_get (JObj kvs) key dflt = Inr (case map_of kvs key of Some v \<Rightarrow> v | None \<Rightarrow> dflt)"
| "py_get _ key dflt = Inl AttributeError"

text \<open>
  \<open>x[0]\<close>: the first element of a list, the first character of a string; a \<open>dict\<close>
  parsed from JSON has string keys only, so the key \<open>0\<close> is missing.
\<close>

fun getitem0 :: "json \<Rightarrow> error + json" where
  "getitem0 (JArr []) = Inl IndexError"
| "getitem0 (JArr (x # xs)) = Inr x"
| "getitem0 (JStr []) = Inl IndexError"
| "getitem0 (JStr (c # cs)) = Inr (JStr [c])"
| "getitem0 (JObj kvs) = Inl KeyError"
| "getitem0 _ = Inl TypeError"

text \<open>
  Lines 72 to 79 of \<open>request\<close>: \<open>None\<close> is the \<open>continue\<close> taken when \<open>choices\<close> is
  empty, \<open>Some content\<close> the value bound to \<open>content\<close>.
\<close>

definition delta_content :: "json \<Rightarrow> error + json option" where
  "delta_content data =
     (case py_get data ''choices'' (JArr []) of
        Inl e \<Rightarrow> Inl e
      | Inr choices \<Rightarrow>
          if \<not> truthy choices then Inr None
          else (case getitem0 choices of
                  Inl e \<Rightarrow> Inl e
                | Inr choice \<Rightarrow>
                    (case py_get choice ''delta'' (JObj []) of
                       Inl e \<Rightarrow> Inl e
                     | Inr delta \<Rightarrow>
                         (case py_get delta ''content'' JNull of
                            Inl e \<Rightarrow> Inl e
                          | Inr a \<Rightarrow>
                              if truthy a then Inr (Some a)
                              else (case py_get delta ''text'' JNull of
                                      Inl e \<Rightarrow> Inl e
                                    | Inr b \<Rightarrow>
                                        if truthy b then Inr (Some b)
                                        else Inr (Some (JStr '''')))))))"

section \<open>The streaming loop of \<open>request\<close>\<close>

text \<open>
  The local variables of \<open>request\<close> that the loop updates, with two parts of the
  world it acts on: \<open>printed\<close>, the characters written to standard output so far, and
  \<open>ticks\<close>, the number of calls of \<open>time.time()\<close> made so far. The clock is a function
  \<open>clk\<close>: its value at \<open>n\<close> is what the call number \<open>n\<close> returns, so \<open>start_time\<close> is
  \<open>clk 0\<close>.
\<close>

record state =
  raw_content :: string
  buffer :: string
  in_action_phase :: bool
  first_token_received :: bool
  time_to_first_token :: "real option"
  time_to_thinking_end :: "real option"
  printed :: string
  ticks :: nat

definition init_state :: state where
  "init_state =
     \<lparr>raw_content = '''', buffer = '''', in_action_phase = False,
      first_token_received = False, time_to_first_token = None,
      time_to_thinking_end = None, printed = '''', ticks = 1\<rparr>"

definition action_markers :: "string list" where
  "action_markers = [''finish(message='', ''do(action='']"

text \<open>
  The loop of lines 96 to 107: the first marker of the list that occurs in the buffer.
\<close>

fun scan_markers :: "string list \<Rightarrow> string \<Rightarrow> string option" where
  "scan_markers [] buf = None"
| "scan_markers (marker # ms) buf =
     (if str_contains marker buf then Some marker else scan_markers ms buf)"

text \<open>
  The loops of lines 114 to 120: \<open>ends_with_prefix\<close> is the inner loop over
  \<open>range(1, len(marker))\<close>, \<open>is_potential_marker\<close> the outer one over the markers.
\<close>

fun ends_with_prefix :: "string \<Rightarrow> string \<Rightarrow> nat list \<Rightarrow> bool" where
  "ends_with_prefix buf marker [] = False"
| "ends_with_prefix buf marker (i # is) =
     (if endswith buf (take i marker) then True else ends_with_prefix buf marker is)"

fun is_potential_marker :: "string list \<Rightarrow> string \<Rightarrow> bool" where
  "is_potential_marker [] buf = False"
| "is_potential_marker (marker # ms) buf =
     (if ends_with_prefix buf marker [1..<length marker] then True
      else is_potential_marker ms buf)"

text \<open>Lines 84 to 124: the loop body once \<open>content\<close> is a non-empty string.\<close>

definition on_content :: "(nat \<Rightarrow> real) \<Rightarrow> state \<Rightarrow> string \<Rightarrow> state" where
  "on_content clk s content =
     (let s1 = s\<lparr>raw_content := raw_content s @ content\<rparr>;
          s2 = (if \<not> first_token_received s1
                then s1\<lparr>time_to_first_token := Some (clk (ticks s1) - clk 0),
                        first_token_received := True,
                        ticks := Suc (ticks s1)\<rparr>
                else s1)
      in if in_action_phase s2 then s2
         else
           (let s3 = s2\<lparr>buffer := buffer s2 @ content\<rparr>
            in case scan_markers action_markers (buffer s3) of
                 Some marker \<Rightarrow>
                   (let thinking_part = str_split1 marker (buffer s3) ! 0;
                        s4 = s3\<lparr>printed := printed s3 @ thinking_part @ [CHR 0x0A],
                                in_action_phase := True\<rparr>
                    in if time_to_thinking_end s4 = None
                       then s4\<lparr>time_to_thinking_end := Some (clk (ticks s4) - clk 0),
                               ticks := Suc (ticks s4)\<rparr>
                       else s4)
               | None \<Rightarrow>
                   if is_potential_marker action_markers (buffer s3) then s3
                   else s3\<lparr>printed := printed s3 @ buffer s3, buffer := ''''\<rparr>))"

text \<open>
  Lines 67 to 124, for an event whose data parsed to \<open>data\<close>. A value of \<open>content\<close>
  that is true but not a string makes \<open>raw_content += content\<close> raise \<open>TypeError\<close>.
\<close>

definition loop_body :: "(nat \<Rightarrow> real) \<Rightarrow> state \<Rightarrow> json \<Rightarrow> error + state" where
  "loop_body clk s data =
     (case delta_content data of
        Inl e \<Rightarrow> Inl e
      | Inr None \<Rightarrow> Inr s
      | Inr (Some content) \<Rightarrow>
          if \<not> truthy content then Inr s
          else (case content of
                  JStr c \<Rightarrow> Inr (on_content clk s c)
                | _ \<Rightarrow> Inl TypeError))"

text \<open>
  The loop \<open>for event in client.events()\<close> over the events the server sends: it stops
  at the sentinel, skips data that is not JSON, and an exception of the body ends it.
\<close>

fun events_loop :: "(nat \<Rightarrow> real) \<Rightarrow> state \<Rightarrow> sse_event list \<Rightarrow> error + state" where
  "events_loop clk s [] = Inr s"
| "events_loop clk s (Done # es) = Inr s"
| "events_loop clk s (Malformed # es) = events_loop clk s es"
| "events_loop clk s (Payload data # es) =
     (case loop_body clk s data of
        Inl e \<Rightarrow> Inl e
      | Inr s' \<Rightarrow> events_loop clk s' es)"

text \<open>
  Modelled from the spec: the class \<open>ModelResponse\<close> of \<open>phone_agent/model/client.py\<close>
  is not part of the sources; it is the carrier of the result, with the six fields that
  \<open>request\<close> passes by keyword.
\<close>

record model_response =
  thinking :: string
  action :: string
  resp_raw_content :: string
  resp_time_to_first_token :: "real option"
  resp_time_to_thinking_end :: "real option"
  total_time :: real

text \<open>
  \<open>LlamaModelClient.request\<close> from the first event on (the HTTP call and the metrics
  block printed after the loop are left out; neither changes the value returned).
\<close>

definition request :: "(nat \<Rightarrow> real) \<Rightarrow> sse_event list \<Rightarrow> error + model_response" where
  "request clk events =
     (case events_loop clk init_state events of
        Inl e \<Rightarrow> Inl e
      | Inr s \<Rightarrow>
          (let total = clk (ticks s) - clk 0;
               (th, ac) = parse_response (raw_content s)
           in Inr \<lparr>thinking = th, action = ac, resp_raw_content = raw_content s,
                   resp_time_to_first_token = time_to_first_token s,
                   resp_time_to_thinking_end = time_to_thinking_end s,
                   total_time = total\<rparr>))"

section \<open>Notions of the specification\<close>

text \<open>
  \<open>splits_at_first sep s a b\<close>: \<open>a\<close> is the text of \<open>s\<close> before the first occurrence of
  \<open>sep\<close> and \<open>b\<close> the text after it.
\<close>

definition splits_at_first :: "string \<Rightarrow> string \<Rightarrow> string \<Rightarrow> string \<Rightarrow> bool" where
  "splits_at_first sep s a b = (s = a @ sep @ b \<and> \<not> sublist sep (a @ butlast sep))"

text \<open>A trailing tag stripped: the tag is removed when the text ends with it.\<close>

definition strip_trailing_tag :: "string \<Rightarrow> string \<Rightarrow> string" where
  "strip_trailing_tag tag s = (if endswith s tag then take (length s - length tag) s else s)"

text \<open>The non-empty delta content an event carries; empty for every other event.\<close>

definition event_text :: "sse_event \<Rightarrow> string" where
  "event_text ev =
     (case ev of
        Payload data \<Rightarrow>
          (case delta_content data of Inr (Some (JStr c)) \<Rightarrow> c | _ \<Rightarrow> '''')
      | _ \<Rightarrow> '''')"

text \<open>The events the loop processes: those before the first sentinel.\<close>

definition processed :: "sse_event list \<Rightarrow> sse_event list" where
  "processed es = takeWhile (\<lambda>ev. ev \<noteq> Done) es"

section \<open>The invariant of the loop\<close>

text \<open>
  \<open>clear_of m pre\<close>: the text \<open>pre\<close> holds no part of an occurrence of the marker \<open>m\<close>,
  however the text goes on: \<open>m\<close> does not occur in \<open>pre\<close>, and \<open>pre\<close> does not end with a
  non-empty proper prefix of \<open>m\<close>.
\<close>

definition clear_of :: "string \<Rightarrow> string \<Rightarrow> bool" where
  "clear_of m pre =
     (\<not> sublist m pre \<and> (\<forall>i. 0 < i \<and> i < length m \<longrightarrow> \<not> suffix (take i m) pre))"

text \<open>
  The invariant of the loop. Before the action phase the text received is the text
  printed followed by the pending buffer, the buffer holds no marker, and the printed text
  is clear of every marker; in the action phase the printed text is the text before the
  first occurrence of some marker in \<open>raw_content\<close>, and a newline. Each timestamp is
  set exactly when its flag is.
\<close>

definition stream_inv :: "state \<Rightarrow> bool" where
  "stream_inv s =
     ((first_token_received s \<longleftrightarrow> time_to_first_token s \<noteq> None) \<and>
      (first_token_received s \<longleftrightarrow> raw_content s \<noteq> []) \<and>
      (in_action_phase s \<longleftrightarrow> time_to_thinking_end s \<noteq> None) \<and>
      (\<not> in_action_phase s \<longrightarrow>
         raw_content s = printed s @ buffer s \<and>
         (\<forall>m \<in> set action_markers. \<not> sublist m (buffer s) \<and> clear_of m (printed s))) \<and>
      (in_action_phase s \<longrightarrow>
         (\<exists>m \<in> set action_markers. \<exists>p T.
            splits_at_first m (raw_content s) p T \<and> printed s = p @ [CHR 0x0A])))"

section \<open>Sample runs\<close>

text \<open>
  An event of the shape the server sends, \<open>{"choices": [{"delta": {"content": c}}]}\<close>.
\<close>

definition chunk :: "string \<Rightarrow> sse_event" where
  "chunk c = Payload (JObj [(''choices'', JArr [JObj [(''delta'', JObj [(''content'', JStr c)])]])])"

text \<open>
  The states of a request that receives \<open>hello do(acti\<close> and then \<open>on=run)\<close>, under the
  clock \<open>real\<close>, whose call number \<open>n\<close> returns \<open>n\<close> seconds: after the first chunk
  everything is withheld; the second chunk completes the marker.
\<close>

definition withheld_state :: state where
  "withheld_state =
     \<lparr>raw_content = ''hello do(acti'', buffer = ''hello do(acti'', in_action_phase = False,
      first_token_received = True, time_to_first_token = Some 1,
      time_to_thinking_end = None, printed = '''', ticks = 2\<rparr>"

definition detected_state :: state where
  "detected_state =
     \<lparr>raw_content = ''hello do(action=run)'', buffer = ''hello do(action=run)'',
      in_action_phase = True, first_token_received = True, time_to_first_token = Some 1,
      time_to_thinking_end = Some 2, printed = ''hello '' @ [CHR 0x0A], ticks = 3\<rparr>"

section \<open>Facts about the string operations\<close>

lemma str_find_None: "str_find sub s = None \<longleftrightarrow> \<not> sublist sub s"
  by (induction s) (auto simp: sublist_Cons_right)

lemma str_contains_sublist: "str_contains sub s \<longleftrightarrow> sublist sub s"
  by (simp add: str_contains_def str_find_None)

lemma endswith_suffix: "endswith s p \<longleftrightarrow> suffix p s"
proof
  assume "endswith s p"
  then have "s = take (length s - length p) s @ p"
    by (metis append_take_drop_id endswith_def)
  then show "suffix p s" by (metis suffixI)
next
  assume "suffix p s"
  then show "endswith s p" by (auto simp: endswith_def suffix_def)
qed

lemma prefix_into_butlast:
  assumes "prefix sub (a @ sub @ b)" "a \<noteq> []"
  shows "sublist sub (a @ butlast sub)"
proof -
  have "prefix (a @ butlast sub) (a @ sub @ b)"
    by (metis append_butlast_last_id append.assoc prefixI butlast.simps(1) same_prefix_prefix append_Nil2 prefix_def)
  moreover have "length sub \<le> length (a @ butlast sub)"
    using assms(2) by (cases a) auto
  ultimately have "prefix sub (a @ butlast sub)"
    using assms(1) prefix_length_prefix by blast
  then show ?thesis by (auto simp: prefix_def)
qed

lemma str_find_first:
  "\<not> sublist sep (a @ butlast sep) \<Longrightarrow> str_find sep (a @ sep @ b) = Some (length a)"
proof (induction a)
  case Nil
  have "prefix sep (sep @ b)" by simp
  then show ?case by (cases "sep @ b") (auto simp del: prefixI)
next
  case (Cons x a)
  have "\<not> prefix sep ((x # a) @ sep @ b)"
    using Cons.prems prefix_into_butlast by blast
  moreover have "\<not> sublist sep (a @ butlast sep)"
    using Cons.prems by (simp add: sublist_Cons_right)
  ultimately show ?case using Cons.IH by simp
qed

lemma str_split1_first:
  "splits_at_first sep s a b \<Longrightarrow> str_split1 sep s = [a, b]"
  by (simp add: splits_at_first_def str_split1_def str_find_first)

lemma not_sublist_butlast: "sep \<noteq> [] \<Longrightarrow> \<not> sublist sep (butlast sep)"
proof
  assume "sep \<noteq> []" "sublist sep (butlast sep)"
  then have "length sep \<le> length (butlast sep)" using sublist_length_le by blast
  with \<open>sep \<noteq> []\<close> show False by (cases sep rule: rev_cases) auto
qed

lemma str_find_Some:
  "sep \<noteq> [] \<Longrightarrow> str_find sep s = Some i \<Longrightarrow>
     splits_at_first sep s (take i s) (drop (i + length sep) s)"
proof (induction s arbitrary: i)
  case Nil
  then show ?case by (auto simp: splits_at_first_def split: if_splits)
next
  case (Cons c cs)
  show ?case
  proof (cases "prefix sep (c # cs)")
    case True
    then have i: "i = 0" using Cons.prems by simp
    from True obtain r where r: "c # cs = sep @ r" by (auto simp: prefix_def)
    show ?thesis
      using Cons.prems(1) by (simp add: i r splits_at_first_def not_sublist_butlast)
  next
    case False
    then obtain j where j: "str_find sep cs = Some j" "i = Suc j"
      using Cons.prems by auto
    from Cons.IH[OF Cons.prems(1) j(1)] have ih: "cs = take j cs @ sep @ drop (j + length sep) cs"
      "\<not> sublist sep (take j cs @ butlast sep)"
      by (auto simp: splits_at_first_def)
    have "\<not> prefix sep (c # take j cs @ butlast sep)"
    proof
      assume "prefix sep (c # take j cs @ butlast sep)"
      moreover have "prefix (c # take j cs @ butlast sep) (c # cs)"
        by (subst (2) ih(1)) (metis Cons_prefix_Cons append_butlast_last_id append.assoc
            butlast.simps(1) prefixI same_prefix_prefix append_Nil2)
      ultimately show False using False prefix_order.trans by blast
    qed
    then have "\<not> sublist sep (c # take j cs @ butlast sep)"
      using ih(2) by (simp add: sublist_Cons_right)
    then show ?thesis
      using ih(1) by (simp add: j(2) splits_at_first_def)
  qed
qed

lemma str_contains_split:
  "sep \<noteq> [] \<Longrightarrow> str_contains sep s \<Longrightarrow> \<exists>a b. splits_at_first sep s a b"
  by (auto simp: str_contains_def dest: str_find_Some)

lemma splits_at_first_contains: "splits_at_first sep s a b \<Longrightarrow> str_contains sep s"
  by (auto simp: splits_at_first_def str_contains_sublist)

lemma splits_at_first_unique:
  "splits_at_first sep s a b \<Longrightarrow> splits_at_first sep s a' b' \<Longrightarrow> a = a' \<and> b = b'"
  by (auto dest!: str_split1_first)

lemma str_split1_length:
  "sep \<noteq> [] \<Longrightarrow> str_contains sep s \<Longrightarrow> length (str_split1 sep s) = 2"
  by (auto simp: str_contains_def str_split1_def)

lemma markers_nonempty [simp]:
  "finish_marker \<noteq> []" "do_marker \<noteq> []" "answer_tag \<noteq> []"
  by (simp_all add: finish_marker_def do_marker_def answer_tag_def)

section \<open>The classifier\<close>

text \<open>
  Claim C2. For every content in which \<open>finish(message=\<close> occurs, with \<open>p\<close> the text
  before its first occurrence and \<open>T\<close> the text after it, \<open>_parse_response\<close> returns
  the action \<open>finish(message=\<close> followed by \<open>T\<close>, unmodified, and the thinking \<open>p\<close>
  with its surrounding whitespace removed.
\<close>

theorem parse_response_finish:
  assumes "splits_at_first finish_marker content p T"
  shows "parse_response content = (strip p, finish_marker @ T)"
  using assms splits_at_first_contains[OF assms] str_split1_first[OF assms]
  by (simp add: parse_response_def)

theorem parse_response_finish_witness:
  "splits_at_first finish_marker ''I think... finish(message=done)'' ''I think... '' ''done)''
   \<and> parse_response ''I think... finish(message=done)'' = (''I think...'', ''finish(message=done)'')"
proof -
  have h: "splits_at_first finish_marker ''I think... finish(message=done)'' ''I think... '' ''done)''"
    by code_simp
  have "strip ''I think... '' = ''I think...''" by code_simp
  with h parse_response_finish[OF h] show ?thesis by (simp add: finish_marker_def)
qed

text \<open>
  Claim C9. For every content in which none of \<open>finish(message=\<close>, \<open>do(action=\<close> and
  \<open><answer>\<close> occurs, \<open>_parse_response\<close> returns the empty thinking and the whole
  content, unchanged, as the action; for the empty content both are empty.
\<close>

theorem parse_response_no_marker:
  "(\<not> str_contains finish_marker content \<and> \<not> str_contains do_marker content
      \<and> \<not> str_contains answer_tag content \<longrightarrow> parse_response content = ('''', content))
   \<and> parse_response '''' = ('''', '''')"
  by (simp add: parse_response_def str_contains_def finish_marker_def do_marker_def answer_tag_def)

theorem parse_response_no_marker_witness:
  "\<not> str_contains finish_marker ''tap the button'' \<and> \<not> str_contains do_marker ''tap the button''
   \<and> \<not> str_contains answer_tag ''tap the button''
   \<and> parse_response ''tap the button'' = ('''', ''tap the button'')"
proof -
  have h: "\<not> str_contains finish_marker ''tap the button''"
    "\<not> str_contains do_marker ''tap the button''"
    "\<not> str_contains answer_tag ''tap the button''"
    by code_simp+
  with parse_response_no_marker[of "''tap the button''"] show ?thesis by simp
qed

text \<open>
  Claim C10. For every content in which \<open>finish(message=\<close> or \<open>do(action=\<close> occurs, the
  pair that \<open>_parse_response\<close> returns reconstructs the content: there is a prefix \<open>p\<close>
  with content equal to \<open>p\<close> followed by the action, the thinking is \<open>p\<close> stripped of
  surrounding whitespace, and the action is a suffix of the content that begins with the
  matched marker (\<open>finish(message=\<close> when it occurs, \<open>do(action=\<close> otherwise).
\<close>

theorem parse_response_reconstructs:
  assumes "str_contains finish_marker content \<or> str_contains do_marker content"
  shows "\<exists>p. content = p @ snd (parse_response content)
            \<and> fst (parse_response content) = strip p
            \<and> suffix (snd (parse_response content)) content
            \<and> prefix (if str_contains finish_marker content then finish_marker else do_marker)
                 (snd (parse_response content))"
proof (cases "str_contains finish_marker content")
  case True
  then obtain p T where s: "splits_at_first finish_marker content p T"
    using str_contains_split by fastforce
  have "content = p @ finish_marker @ T" using s by (simp add: splits_at_first_def)
  then show ?thesis
    using True str_split1_first[OF s] by (auto simp: parse_response_def suffix_def)
next
  case False
  with assms have d: "str_contains do_marker content" by simp
  then obtain p T where s: "splits_at_first do_marker content p T"
    using str_contains_split by fastforce
  have "content = p @ do_marker @ T" using s by (simp add: splits_at_first_def)
  then show ?thesis
    using False d str_split1_first[OF s] by (auto simp: parse_response_def suffix_def)
qed

theorem parse_response_reconstructs_witness:
  "(str_contains finish_marker ''ok do(action=Tap)'' \<or> str_contains do_marker ''ok do(action=Tap)'')
   \<and> (\<exists>p. ''ok do(action=Tap)'' = p @ snd (parse_response ''ok do(action=Tap)'')
            \<and> fst (parse_response ''ok do(action=Tap)'') = strip p
            \<and> suffix (snd (parse_response ''ok do(action=Tap)'')) ''ok do(action=Tap)''
            \<and> prefix (if str_contains finish_marker ''ok do(action=Tap)'' then finish_marker
                       else do_marker)
                 (snd (parse_response ''ok do(action=Tap)'')))"
proof -
  have h: "str_contains finish_marker ''ok do(action=Tap)'' \<or> str_contains do_marker ''ok do(action=Tap)''"
    by code_simp
  show ?thesis using h parse_response_reconstructs[OF h] by blast
qed

text \<open>
  Claim C3. The markers are checked in the fixed order \<open>finish(message=\<close>, \<open>do(action=\<close>,
  \<open><answer>\<close>. For every content in which \<open>do(action=\<close> occurs and \<open>finish(message=\<close>
  does not, \<open>_parse_response\<close> takes the \<open>do(action=\<close> branch, whether or not
  \<open><answer>\<close> occurs; for every content in which both markers occur it splits at the
  first \<open>finish(message=\<close>, wherever \<open>do(action=\<close> stands. The scan of the pending buffer
  in \<open>request\<close> follows the same order.
\<close>

theorem marker_priority:
  "(\<not> str_contains finish_marker c1 \<and> splits_at_first do_marker c1 p1 T1
      \<longrightarrow> parse_response c1 = (strip p1, do_marker @ T1))
   \<and> (str_contains do_marker c2 \<and> splits_at_first finish_marker c2 p2 T2
      \<longrightarrow> parse_response c2 = (strip p2, finish_marker @ T2))
   \<and> (str_contains finish_marker buf1
      \<longrightarrow> scan_markers action_markers buf1 = Some finish_marker)
   \<and> (\<not> str_contains finish_marker buf2 \<and> str_contains do_marker buf2
      \<longrightarrow> scan_markers action_markers buf2 = Some do_marker)"
proof (intro conjI impI)
  assume h: "\<not> str_contains finish_marker c1 \<and> splits_at_first do_marker c1 p1 T1"
  then have sp: "splits_at_first do_marker c1 p1 T1" by simp
  from h splits_at_first_contains[OF sp] str_split1_first[OF sp]
  show "parse_response c1 = (strip p1, do_marker @ T1)"
    by (simp add: parse_response_def)
next
  assume h: "str_contains do_marker c2 \<and> splits_at_first finish_marker c2 p2 T2"
  then have sp: "splits_at_first finish_marker c2 p2 T2" by simp
  from splits_at_first_contains[OF sp] str_split1_first[OF sp]
  show "parse_response c2 = (strip p2, finish_marker @ T2)"
    by (simp add: parse_response_def)
next
  assume "str_contains finish_marker buf1"
  then show "scan_markers action_markers buf1 = Some finish_marker"
    by (simp add: action_markers_def finish_marker_def)
next
  assume "\<not> str_contains finish_marker buf2 \<and> str_contains do_marker buf2"
  then show "scan_markers action_markers buf2 = Some do_marker"
    by (simp add: action_markers_def finish_marker_def do_marker_def)
qed

theorem marker_priority_witness:
  "(\<not> str_contains finish_marker ''ok do(action=Tap)<answer>''
      \<and> splits_at_first do_marker ''ok do(action=Tap)<answer>'' ''ok '' ''Tap)<answer>''
      \<and> parse_response ''ok do(action=Tap)<answer>'' = (''ok'', ''do(action=Tap)<answer>''))
   \<and> (str_contains do_marker ''do(action=x) finish(message=y)''
      \<and> splits_at_first finish_marker ''do(action=x) finish(message=y)'' ''do(action=x) '' ''y)''
      \<and> parse_response ''do(action=x) finish(message=y)'' = (''do(action=x)'', ''finish(message=y)''))
   \<and> (str_contains finish_marker ''do(action=x) finish(message=y)''
      \<and> scan_markers action_markers ''do(action=x) finish(message=y)'' = Some ''finish(message='')
   \<and> (\<not> str_contains finish_marker ''ok do(action=Tap)'' \<and> str_contains do_marker ''ok do(action=Tap)''
      \<and> scan_markers action_markers ''ok do(action=Tap)'' = Some ''do(action='')"
proof -
  have h1: "\<not> str_contains finish_marker ''ok do(action=Tap)<answer>''
      \<and> splits_at_first do_marker ''ok do(action=Tap)<answer>'' ''ok '' ''Tap)<answer>''"
    by code_simp
  have h2: "str_contains do_marker ''do(action=x) finish(message=y)''
      \<and> splits_at_first finish_marker ''do(action=x) finish(message=y)'' ''do(action=x) '' ''y)''"
    by code_simp
  have h3: "str_contains finish_marker ''do(action=x) finish(message=y)''"
    by code_simp
  have h4: "\<not> str_contains finish_marker ''ok do(action=Tap)'' \<and> str_contains do_marker ''ok do(action=Tap)''"
    by code_simp
  have e: "strip ''ok '' = ''ok''" "strip ''do(action=x) '' = ''do(action=x)''"
    by code_simp+
  from marker_priority[where ?c1.0 = "''ok do(action=Tap)<answer>''" and ?p1.0 = "''ok ''"
      and ?T1.0 = "''Tap)<answer>''" and ?c2.0 = "''do(action=x) finish(message=y)''"
      and ?p2.0 = "''do(action=x) ''" and ?T2.0 = "''y)''"
      and ?buf1.0 = "''do(action=x) finish(message=y)''" and ?buf2.0 = "''ok do(action=Tap)''"]
    h1 h2 h3 h4 e
  show ?thesis by (simp add: finish_marker_def do_marker_def)
qed

section \<open>Facts about \<open>replace\<close>\<close>

lemma str_replace_Nil: "old \<noteq> [] \<Longrightarrow> str_replace old new [] = []"
  by (simp add: str_replace.simps)

lemma str_replace_absent:
  "old \<noteq> [] \<Longrightarrow> \<not> sublist old s \<Longrightarrow> str_replace old new s = s"
proof (induction s)
  case Nil
  then show ?case by (simp add: str_replace_Nil)
next
  case (Cons c cs)
  then have "\<not> prefix old (c # cs)" "\<not> sublist old cs"
    by (simp_all add: sublist_Cons_right)
  with Cons show ?case by (subst str_replace.simps) simp
qed

lemma str_replace_first:
  "old \<noteq> [] \<Longrightarrow> splits_at_first old s a b \<Longrightarrow>
     str_replace old new s = a @ new @ str_replace old new b"
proof (induction a arbitrary: s)
  case Nil
  then have "s = old @ b" by (simp add: splits_at_first_def)
  with Nil.prems(1) show ?case by (subst str_replace.simps) simp
next
  case (Cons x a)
  from Cons.prems have s: "s = x # (a @ old @ b)" and ns: "\<not> sublist old (x # a @ butlast old)"
    by (simp_all add: splits_at_first_def)
  have np: "\<not> prefix old s"
    using ns prefix_into_butlast[of old "x # a" b] by (auto simp: s)
  from ns have "splits_at_first old (a @ old @ b) a b"
    by (simp add: splits_at_first_def sublist_Cons_right)
  from Cons.IH[OF Cons.prems(1) this] np Cons.prems(1) show ?case
    by (subst str_replace.simps) (simp add: s)
qed

lemma strip_trailing_tag_agrees:
  assumes "tag \<noteq> []" and "\<not> sublist tag T \<or> splits_at_first tag T X []"
  shows "str_replace tag [] T = strip_trailing_tag tag T"
proof (cases "sublist tag T")
  case False
  then have "\<not> endswith T tag"
    by (auto simp: endswith_suffix suffix_def sublist_def) (metis append_Nil2)
  with False assms(1) show ?thesis
    by (simp add: str_replace_absent strip_trailing_tag_def)
next
  case True
  with assms have sp: "splits_at_first tag T X []" by simp
  then have T: "T = X @ tag" by (simp add: splits_at_first_def)
  have "endswith T tag" by (simp add: endswith_suffix T suffix_def)
  then have "strip_trailing_tag tag T = X" by (simp add: strip_trailing_tag_def T)
  with str_replace_first[OF assms(1) sp, of "[]"] assms(1) show ?thesis
    by (simp add: str_replace_Nil)
qed

text \<open>
  Claim C4, as amended. For every content in which \<open><answer>\<close> occurs and neither
  \<open>finish(message=\<close> nor \<open>do(action=\<close> does, with \<open>p\<close> the text before the first
  \<open><answer>\<close> and \<open>T\<close> the text after it, \<open>_parse_response\<close> returns the thinking \<open>p\<close>
  with the occurrences of \<open><think>\<close> and then those of \<open></think>\<close> removed, trimmed, and
  the action \<open>T\<close> with every occurrence of \<open></answer>\<close> removed, not only a trailing one,
  trimmed.
\<close>

theorem parse_response_answer:
  assumes "\<not> str_contains finish_marker content" and "\<not> str_contains do_marker content"
    and "splits_at_first answer_tag content p T"
  shows "parse_response content =
           (strip (str_replace ''</think>'' '''' (str_replace ''<think>'' '''' p)),
            strip (str_replace ''</answer>'' '''' T))"
  using assms splits_at_first_contains[OF assms(3)] str_split1_first[OF assms(3)]
  by (simp add: parse_response_def)

theorem parse_response_answer_witness:
  "\<not> str_contains finish_marker ''<think>hm</think> <answer>a</answer>b''
   \<and> \<not> str_contains do_marker ''<think>hm</think> <answer>a</answer>b''
   \<and> splits_at_first answer_tag ''<think>hm</think> <answer>a</answer>b'' ''<think>hm</think> '' ''a</answer>b''
   \<and> parse_response ''<think>hm</think> <answer>a</answer>b'' = (''hm'', ''ab'')"
proof -
  have h: "\<not> str_contains finish_marker ''<think>hm</think> <answer>a</answer>b''"
    "\<not> str_contains do_marker ''<think>hm</think> <answer>a</answer>b''"
    "splits_at_first answer_tag ''<think>hm</think> <answer>a</answer>b'' ''<think>hm</think> '' ''a</answer>b''"
    by code_simp+
  have e: "strip (str_replace ''</think>'' '''' (str_replace ''<think>'' '''' ''<think>hm</think> '')) = ''hm''"
    "strip (str_replace ''</answer>'' '''' ''a</answer>b'') = ''ab''"
    by code_simp+
  from parse_response_answer[OF h] h e show ?thesis by simp
qed

text \<open>
  The claim as first stated, with only a trailing \<open></answer>\<close> stripped, fails on the
  content \<open><answer>a</answer>b\<close>: the closing tag is not at the end of the text after
  \<open><answer>\<close>, so stripping a trailing tag leaves \<open>a</answer>b\<close>, while the code returns
  the action \<open>ab\<close>.
\<close>

theorem parse_response_answer_counterexample:
  "str_contains answer_tag ''<answer>a</answer>b''
   \<and> \<not> str_contains finish_marker ''<answer>a</answer>b''
   \<and> \<not> str_contains do_marker ''<answer>a</answer>b''
   \<and> splits_at_first answer_tag ''<answer>a</answer>b'' '''' ''a</answer>b''
   \<and> snd (parse_response ''<answer>a</answer>b'') = ''ab''
   \<and> strip (strip_trailing_tag ''</answer>'' ''a</answer>b'') = ''a</answer>b''
   \<and> snd (parse_response ''<answer>a</answer>b'') \<noteq> strip (strip_trailing_tag ''</answer>'' ''a</answer>b'')"
  by code_simp

section \<open>Facts about the marker scan\<close>

lemma scan_markers_None:
  "scan_markers ms buf = None \<longleftrightarrow> (\<forall>m \<in> set ms. \<not> sublist m buf)"
  by (induction ms) (auto simp: str_contains_sublist)

lemma scan_markers_Some:
  "scan_markers ms buf = Some m \<Longrightarrow> m \<in> set ms \<and> sublist m buf"
  by (induction ms) (auto simp: str_contains_sublist split: if_splits)

lemma ends_with_prefix_iff:
  "ends_with_prefix buf m js \<longleftrightarrow> (\<exists>i \<in> set js. suffix (take i m) buf)"
  by (induction js) (auto simp: endswith_suffix)

lemma ends_with_prefix_range:
  "ends_with_prefix buf m [1..<length m] \<longleftrightarrow>
      (\<exists>i. 0 < i \<and> i < length m \<and> suffix (take i m) buf)"
proof -
  have "(\<exists>i \<in> set [1..<length m]. suffix (take i m) buf) \<longleftrightarrow>
      (\<exists>i. 0 < i \<and> i < length m \<and> suffix (take i m) buf)"
    by (metis One_nat_def Suc_le_eq atLeastLessThan_iff set_upt)
  then show ?thesis by (simp only: ends_with_prefix_iff)
qed

lemma is_potential_marker_iff:
  "is_potential_marker ms buf \<longleftrightarrow>
     (\<exists>m \<in> set ms. \<exists>i. 0 < i \<and> i < length m \<and> suffix (take i m) buf)"
proof (induction ms)
  case Nil
  show ?case by simp
next
  case (Cons m ms)
  have "is_potential_marker (m # ms) buf \<longleftrightarrow>
      ends_with_prefix buf m [1..<length m] \<or> is_potential_marker ms buf"
    by (cases "ends_with_prefix buf m [1..<length m]")
      (simp_all only: is_potential_marker.simps if_True if_False simp_thms)
  then show ?case
    unfolding Cons.IH ends_with_prefix_range by (simp only: set_simps bex_simps)
qed

lemma prefix_take_length: "us @ x = m @ b \<Longrightarrow> length us \<le> length m \<Longrightarrow> us = take (length us) m"
  by (metis append_eq_conv_conj take_append diff_is_0_eq' take_0 append_Nil2 append_eq_append_conv_if)

lemma clear_of_occurrence:
  assumes c: "clear_of m pre" and e: "pre @ ext = a @ m @ b"
  shows "length pre \<le> length a"
proof (rule ccontr)
  assume "\<not> length pre \<le> length a"
  then have lt: "length a < length pre" by simp
  from e obtain us where us: "pre = a @ us" "us @ ext = m @ b"
    using lt by (auto simp: append_eq_append_conv2)
  have ne: "us \<noteq> []" using us(1) lt by auto
  show False
  proof (cases "length m \<le> length us")
    case True
    then have "prefix m us" using us(2)
      by (metis prefixI prefix_length_prefix)
    then have "sublist m pre" using us(1) by (auto simp: prefix_def)
    with c show False by (simp add: clear_of_def)
  next
    case False
    then have l: "length us < length m" by simp
    then have "us = take (length us) m" using prefix_take_length[OF us(2)] by simp
    moreover have "suffix us pre" using us(1) by (simp add: suffix_def)
    moreover have "0 < length us" using ne by simp
    ultimately show False using c l unfolding clear_of_def by metis
  qed
qed

lemma clear_of_Nil: "m \<noteq> [] \<Longrightarrow> clear_of m []"
  by (auto simp: clear_of_def)

lemma clear_of_append:
  assumes c: "clear_of m pre" and nb: "\<not> sublist m buf"
    and np: "\<And>i. 0 < i \<Longrightarrow> i < length m \<Longrightarrow> \<not> suffix (take i m) buf"
  shows "clear_of m (pre @ buf)"
  unfolding clear_of_def
proof (intro conjI allI impI notI)
  assume "sublist m (pre @ buf)"
  then obtain a b where e: "pre @ buf = a @ m @ b" by (auto simp: sublist_def)
  from clear_of_occurrence[OF c e] obtain a' where "a = pre @ a'"
    using e by (metis append_eq_append_conv_if append_take_drop_id)
  with e have "buf = a' @ m @ b" by simp
  with nb show False by (auto simp: sublist_def)
next
  fix i assume i: "0 < i \<and> i < length m" and "suffix (take i m) (pre @ buf)"
  then obtain z where z: "pre @ buf = z @ take i m" by (auto simp: suffix_def)
  then have "pre @ (buf @ drop i m) = z @ m @ []" by (metis append.assoc append_Nil2 append_take_drop_id)
  from clear_of_occurrence[OF c this] obtain z' where "z = pre @ z'"
    using z by (metis append_eq_append_conv_if append_take_drop_id)
  with z have "buf = z' @ take i m" by simp
  then have "suffix (take i m) buf" by (simp add: suffix_def)
  with np i show False by blast
qed

lemma clear_of_first:
  assumes c: "clear_of m pre" and s: "splits_at_first m buf tp rest"
  shows "splits_at_first m (pre @ buf) (pre @ tp) rest"
proof -
  have "\<not> sublist m (pre @ tp @ butlast m)"
  proof
    assume "sublist m (pre @ tp @ butlast m)"
    then obtain a b where e: "pre @ (tp @ butlast m) = a @ m @ b" by (auto simp: sublist_def)
    from clear_of_occurrence[OF c e] obtain a' where "a = pre @ a'"
      using e by (metis append_eq_append_conv_if append_take_drop_id)
    with e have "tp @ butlast m = a' @ m @ b" by simp
    then have "sublist m (tp @ butlast m)" by (auto simp: sublist_def)
    with s show False by (simp add: splits_at_first_def)
  qed
  with s show ?thesis by (simp add: splits_at_first_def)
qed

lemma splits_at_first_append:
  "splits_at_first m r p T \<Longrightarrow> splits_at_first m (r @ c) p (T @ c)"
  by (simp add: splits_at_first_def)

section \<open>The loop keeps its invariant\<close>

lemma action_markers_nonempty: "m \<in> set action_markers \<Longrightarrow> m \<noteq> []"
  by (auto simp: action_markers_def)

lemma on_content_raw [simp]: "raw_content (on_content clk s c) = raw_content s @ c"
  by (simp add: on_content_def Let_def split: option.splits)

lemma on_content_first_token [simp]: "first_token_received (on_content clk s c)"
  by (simp add: on_content_def Let_def split: option.splits)

lemma on_content_ttft:
  "time_to_first_token (on_content clk s c) =
     (if first_token_received s then time_to_first_token s else Some (clk (ticks s) - clk 0))"
  by (simp add: on_content_def Let_def split: option.splits)

lemma on_content_in_action:
  assumes "in_action_phase s"
  shows "in_action_phase (on_content clk s c)"
    and "time_to_thinking_end (on_content clk s c) = time_to_thinking_end s"
    and "printed (on_content clk s c) = printed s"
    and "buffer (on_content clk s c) = buffer s"
  using assms by (simp_all add: on_content_def Let_def)

lemma on_content_detect:
  assumes "\<not> in_action_phase s" "scan_markers action_markers (buffer s @ c) = Some m"
  shows "in_action_phase (on_content clk s c)"
    and "printed (on_content clk s c) = printed s @ str_split1 m (buffer s @ c) ! 0 @ [CHR 0x0A]"
    and "time_to_thinking_end (on_content clk s c) =
           (if time_to_thinking_end s = None
            then Some (clk (if first_token_received s then ticks s else Suc (ticks s)) - clk 0)
            else time_to_thinking_end s)"
  using assms by (simp_all add: on_content_def Let_def)

lemma on_content_no_marker:
  assumes "\<not> in_action_phase s" "scan_markers action_markers (buffer s @ c) = None"
  shows "\<not> in_action_phase (on_content clk s c)"
    and "time_to_thinking_end (on_content clk s c) = time_to_thinking_end s"
    and "is_potential_marker action_markers (buffer s @ c) \<Longrightarrow>
           printed (on_content clk s c) = printed s \<and> buffer (on_content clk s c) = buffer s @ c"
    and "\<not> is_potential_marker action_markers (buffer s @ c) \<Longrightarrow>
           printed (on_content clk s c) = printed s @ buffer s @ c \<and> buffer (on_content clk s c) = []"
  using assms by (simp_all add: on_content_def Let_def)

lemma stream_inv_init: "stream_inv init_state"
  by (auto simp: stream_inv_def init_state_def clear_of_def dest: action_markers_nonempty)

lemma stream_inv_on_content:
  assumes inv: "stream_inv s" and ne: "c \<noteq> []"
  shows "stream_inv (on_content clk s c)"
proof (cases "in_action_phase s")
  case True
  with inv obtain m p T where m: "m \<in> set action_markers"
      "splits_at_first m (raw_content s) p T" "printed s = p @ [CHR 0x0A]"
    by (auto simp: stream_inv_def)
  have "splits_at_first m (raw_content s @ c) p (T @ c)"
    using m(2) by (rule splits_at_first_append)
  with m(1,3) inv True ne show ?thesis
    unfolding stream_inv_def
    by (auto simp: on_content_in_action on_content_ttft)
next
  case False
  with inv have raw: "raw_content s = printed s @ buffer s"
    and clr: "\<And>m. m \<in> set action_markers \<Longrightarrow> clear_of m (printed s)"
    and tte: "time_to_thinking_end s = None"
    by (auto simp: stream_inv_def)
  have ft: "(first_token_received (on_content clk s c) \<longleftrightarrow> time_to_first_token (on_content clk s c) \<noteq> None)
     \<and> (first_token_received (on_content clk s c) \<longleftrightarrow> raw_content (on_content clk s c) \<noteq> [])"
    using inv ne by (auto simp: stream_inv_def on_content_ttft)
  show ?thesis
  proof (cases "scan_markers action_markers (buffer s @ c)")
    case (Some m)
    note d = on_content_detect[OF False Some, of clk]
    from scan_markers_Some[OF Some] have m: "m \<in> set action_markers" "sublist m (buffer s @ c)"
      by auto
    then obtain tp rest where sp: "splits_at_first m (buffer s @ c) tp rest"
      using str_contains_split[of m "buffer s @ c"] action_markers_nonempty
      by (auto simp: str_contains_sublist)
    have tp: "str_split1 m (buffer s @ c) ! 0 = tp"
      using str_split1_first[OF sp] by simp
    have "splits_at_first m (printed s @ buffer s @ c) (printed s @ tp) rest"
      using clear_of_first[OF clr[OF m(1)] sp] by simp
    then have "\<exists>m \<in> set action_markers. \<exists>p T.
        splits_at_first m (raw_content (on_content clk s c)) p T
        \<and> printed (on_content clk s c) = p @ [CHR 0x0A]"
      using m(1) d(2) tp raw by (intro bexI[of _ m] exI[of _ "printed s @ tp"] exI[of _ rest]) simp_all
    then show ?thesis
      unfolding stream_inv_def using ft d(1) d(3) tte by simp
  next
    case None
    note n = on_content_no_marker[OF False None, of clk]
    from None have nb: "\<And>m. m \<in> set action_markers \<Longrightarrow> \<not> sublist m (buffer s @ c)"
      by (simp add: scan_markers_None)
    show ?thesis
    proof (cases "is_potential_marker action_markers (buffer s @ c)")
      case True
      then show ?thesis
        unfolding stream_inv_def using ft n(1,2) n(3)[OF True] tte raw nb clr by simp
    next
      case False
      then have np: "\<And>m i. m \<in> set action_markers \<Longrightarrow> 0 < i \<Longrightarrow> i < length m
          \<Longrightarrow> \<not> suffix (take i m) (buffer s @ c)"
        unfolding is_potential_marker_iff by blast
      have "\<And>m. m \<in> set action_markers \<Longrightarrow> clear_of m (printed s @ buffer s @ c)"
        using clear_of_append[OF clr nb np] by blast
      moreover have "\<And>m. m \<in> set action_markers \<Longrightarrow> \<not> sublist m []"
        using action_markers_nonempty by auto
      ultimately show ?thesis
        unfolding stream_inv_def using ft n(1,2) n(4)[OF False] tte raw by simp
    qed
  qed
qed

lemma loop_body_cases:
  assumes "loop_body clk s data = Inr s'"
  shows "(event_text (Payload data) = [] \<and> s' = s)
       \<or> (event_text (Payload data) \<noteq> [] \<and> s' = on_content clk s (event_text (Payload data)))"
  using assms
  by (auto simp: loop_body_def event_text_def split: sum.splits option.splits json.splits if_splits)

lemma stream_inv_loop_body:
  "stream_inv s \<Longrightarrow> loop_body clk s data = Inr s' \<Longrightarrow> stream_inv s'"
  using loop_body_cases stream_inv_on_content by blast

lemma stream_inv_events_loop:
  "stream_inv s \<Longrightarrow> events_loop clk s es = Inr s' \<Longrightarrow> stream_inv s'"
proof (induction es arbitrary: s)
  case Nil
  then show ?case by simp
next
  case (Cons e es)
  show ?case
  proof (cases e)
    case Done
    with Cons.prems show ?thesis by simp
  next
    case Malformed
    with Cons show ?thesis by simp
  next
    case (Payload data)
    with Cons.prems obtain s1 where s1: "loop_body clk s data = Inr s1"
        "events_loop clk s1 es = Inr s'"
      by (auto split: sum.splits)
    from stream_inv_loop_body[OF Cons.prems(1) s1(1)] Cons.IH s1(2) show ?thesis by blast
  qed
qed

lemma events_loop_append:
  "Done \<notin> set es1 \<Longrightarrow>
   events_loop clk s (es1 @ es2) =
     (case events_loop clk s es1 of Inl e \<Rightarrow> Inl e | Inr s1 \<Rightarrow> events_loop clk s1 es2)"
proof (induction es1 arbitrary: s)
  case Nil
  then show ?case by simp
next
  case (Cons e es1)
  then show ?case by (cases e) (auto split: sum.splits)
qed

lemma loop_body_raw:
  "loop_body clk s data = Inr s' \<Longrightarrow> raw_content s' = raw_content s @ event_text (Payload data)"
  using loop_body_cases[of clk s data s'] by auto

lemma events_loop_raw_content:
  assumes "events_loop clk s es = Inr s'"
  shows "raw_content s' = raw_content s @ concat (map event_text (processed es))"
  using assms
proof (induction es arbitrary: s)
  case Nil
  then show ?case by (simp add: processed_def)
next
  case (Cons e es)
  show ?case
  proof (cases e)
    case Done
    with Cons.prems show ?thesis by (simp add: processed_def)
  next
    case Malformed
    with Cons.prems have "events_loop clk s es = Inr s'" by simp
    from Cons.IH[OF this] show ?thesis
      by (simp add: Malformed processed_def event_text_def)
  next
    case (Payload data)
    with Cons.prems obtain s1 where s1: "loop_body clk s data = Inr s1"
        "events_loop clk s1 es = Inr s'"
      by (auto split: sum.splits)
    from Cons.IH[OF s1(2)] loop_body_raw[OF s1(1)] show ?thesis
      by (simp add: Payload processed_def)
  qed
qed

lemma loop_body_action:
  assumes "in_action_phase s" "loop_body clk s data = Inr s'"
  shows "in_action_phase s' \<and> time_to_thinking_end s' = time_to_thinking_end s
         \<and> printed s' = printed s"
  using loop_body_cases[OF assms(2)] on_content_in_action[OF assms(1)] assms(1) by auto

lemma events_loop_action:
  assumes "in_action_phase s" "events_loop clk s es = Inr s'"
  shows "in_action_phase s' \<and> time_to_thinking_end s' = time_to_thinking_end s
         \<and> printed s' = printed s"
  using assms
proof (induction es arbitrary: s)
  case Nil
  then show ?case by simp
next
  case (Cons e es)
  show ?case
  proof (cases e)
    case Done
    with Cons.prems show ?thesis by simp
  next
    case Malformed
    with Cons show ?thesis by simp
  next
    case (Payload data)
    with Cons.prems obtain s1 where s1: "loop_body clk s data = Inr s1"
        "events_loop clk s1 es = Inr s'"
      by (auto split: sum.splits)
    from loop_body_action[OF Cons.prems(1) s1(1)] Cons.IH[OF _ s1(2)] show ?thesis by simp
  qed
qed

lemma loop_body_first_token:
  assumes "first_token_received s" "loop_body clk s data = Inr s'"
  shows "first_token_received s' \<and> time_to_first_token s' = time_to_first_token s"
  using loop_body_cases[OF assms(2)] assms(1) by (auto simp: on_content_ttft)

lemma events_loop_first_token:
  assumes "first_token_received s" "events_loop clk s es = Inr s'"
  shows "first_token_received s' \<and> time_to_first_token s' = time_to_first_token s"
  using assms
proof (induction es arbitrary: s)
  case Nil
  then show ?case by simp
next
  case (Cons e es)
  show ?case
  proof (cases e)
    case Done
    with Cons.prems show ?thesis by simp
  next
    case Malformed
    with Cons show ?thesis by simp
  next
    case (Payload data)
    with Cons.prems obtain s1 where s1: "loop_body clk s data = Inr s1"
        "events_loop clk s1 es = Inr s'"
      by (auto split: sum.splits)
    from loop_body_first_token[OF Cons.prems(1) s1(1)] Cons.IH[OF _ s1(2)] show ?thesis by simp
  qed
qed

lemma events_loop_silent:
  assumes "\<forall>e \<in> set es. event_text e = []" "events_loop clk s es = Inr s'"
  shows "s' = s"
  using assms
proof (induction es arbitrary: s)
  case Nil
  then show ?case by simp
next
  case (Cons e es)
  show ?case
  proof (cases e)
    case Done
    with Cons.prems show ?thesis by simp
  next
    case Malformed
    with Cons show ?thesis by simp
  next
    case (Payload data)
    with Cons.prems obtain s1 where s1: "loop_body clk s data = Inr s1"
        "events_loop clk s1 es = Inr s'"
      by (auto split: sum.splits)
    from loop_body_cases[OF s1(1)] Cons.prems(1) Payload have "s1 = s" by auto
    with Cons.IH[OF _ s1(2)] Cons.prems(1) show ?thesis by simp
  qed
qed

lemma event_text_Done [simp]: "event_text Done = []"
  by (simp add: event_text_def)

lemma event_text_step:
  assumes "event_text e \<noteq> []"
  shows "events_loop clk s (e # es) = events_loop clk (on_content clk s (event_text e)) es"
proof -
  from assms obtain data c where e: "e = Payload data" "delta_content data = Inr (Some (JStr c))" "c \<noteq> []"
    by (auto simp: event_text_def split: sse_event.splits sum.splits option.splits json.splits)
  then show ?thesis by (simp add: loop_body_def event_text_def)
qed

lemma not_in_action_no_marker:
  assumes "stream_inv s" "\<not> in_action_phase s" "m \<in> set action_markers"
  shows "\<not> sublist m (raw_content s)"
proof
  assume "sublist m (raw_content s)"
  then obtain a b where e: "printed s @ buffer s = a @ m @ b"
    using assms(1,2) by (auto simp: stream_inv_def sublist_def)
  have c: "clear_of m (printed s)" using assms by (auto simp: stream_inv_def)
  from clear_of_occurrence[OF c e] obtain a' where "a = printed s @ a'"
    using e by (metis append_eq_append_conv_if append_take_drop_id)
  with e have "sublist m (buffer s)" by (auto simp: sublist_def)
  with assms show False by (auto simp: stream_inv_def)
qed

lemma in_action_has_marker:
  assumes "stream_inv s" "in_action_phase s"
  shows "\<exists>m \<in> set action_markers. sublist m (raw_content s)"
proof -
  from assms obtain m p T where m: "m \<in> set action_markers" "splits_at_first m (raw_content s) p T"
    by (auto simp: stream_inv_def)
  from m(2) have "sublist m (raw_content s)"
    by (simp add: splits_at_first_def)
  with m(1) show ?thesis by blast
qed

text \<open>
  On events of the shape the server sends the loop raises nothing: it returns a state.
\<close>

lemma loop_body_chunk:
  "loop_body clk s (JObj [(''choices'', JArr [JObj [(''delta'', JObj [(''content'', JStr c)])]])])
     = Inr (if c = [] then s else on_content clk s c)"
  by (simp add: loop_body_def delta_content_def)

lemma events_loop_total:
  assumes "\<forall>e \<in> set es. e = Done \<or> e = Malformed \<or> (\<exists>c. e = chunk c)"
  shows "\<exists>s'. events_loop clk s es = Inr s'"
  using assms
proof (induction es arbitrary: s)
  case Nil
  then show ?case by simp
next
  case (Cons e es)
  then consider "e = Done" | "e = Malformed" | c where "e = chunk c" by auto
  then show ?case
  proof cases
    case 1
    then show ?thesis by simp
  next
    case 2
    with Cons show ?thesis by simp
  next
    case 3
    with Cons show ?thesis by (simp add: chunk_def loop_body_chunk)
  qed
qed

section \<open>The streaming loop\<close>

text \<open>
  Claim C5. Whatever state the loop is in (before or after the action phase has begun)
  and whatever events follow, when the loop has processed them \<open>raw_content\<close> is its
  former value followed by the delta contents of the events processed, in their order of
  arrival and unchanged; from the initial state it is their concatenation. The printed
  text and the pending buffer play no part.
\<close>

theorem raw_content_is_concatenation:
  assumes "events_loop clk s es = Inr s'"
  shows "raw_content s' = raw_content s @ concat (map event_text (processed es))"
  using assms by (rule events_loop_raw_content)

theorem raw_content_is_concatenation_witness:
  "events_loop real init_state
      [chunk ''hello do(acti'', Malformed, chunk ''on=run)'', Done, chunk ''zzz'']
     = Inr detected_state
   \<and> raw_content detected_state
       = raw_content init_state
         @ concat (map event_text
             (processed [chunk ''hello do(acti'', Malformed, chunk ''on=run)'', Done, chunk ''zzz'']))
   \<and> raw_content detected_state = ''hello do(action=run)''"
proof -
  have h: "events_loop real init_state
      [chunk ''hello do(acti'', Malformed, chunk ''on=run)'', Done, chunk ''zzz'']
     = Inr detected_state"
    by code_simp
  from raw_content_is_concatenation[OF h] h show ?thesis by (simp add: detected_state_def)
qed

text \<open>
  Claim C6. Once \<open>in_action_phase\<close> is true, it is true after every further sequence of
  events the loop processes: no step sets it back to false.
\<close>

theorem action_phase_one_way:
  assumes "in_action_phase s" and "events_loop clk s es = Inr s'"
  shows "in_action_phase s'"
  using events_loop_action[OF assms] by simp

theorem action_phase_one_way_witness:
  "in_action_phase detected_state
   \<and> events_loop real detected_state [chunk ''zzz'', chunk ''finish(message='']
     = Inr (detected_state\<lparr>raw_content := ''hello do(action=run)zzzfinish(message=''\<rparr>)
   \<and> in_action_phase (detected_state\<lparr>raw_content := ''hello do(action=run)zzzfinish(message=''\<rparr>)"
proof -
  have h1: "in_action_phase detected_state"
    by (simp add: detected_state_def)
  have h2: "events_loop real detected_state [chunk ''zzz'', chunk ''finish(message='']
     = Inr (detected_state\<lparr>raw_content := ''hello do(action=run)zzzfinish(message=''\<rparr>)"
    by code_simp
  from action_phase_one_way[OF h1 h2] h1 h2 show ?thesis by simp
qed

text \<open>
  Claim C1. No part of a marker is printed before the marker is recognised. While the
  request is not in the action phase, the text printed is a prefix of the text received,
  and wherever a marker occurs in the text received so far continued by any further text
  \<open>ext\<close>, the printed text ends at or before the start of that occurrence. Once the
  request is in the action phase, the text printed is the text before the first occurrence
  of a marker in \<open>raw_content\<close>, and a newline. Step by step: a chunk after which the
  pending buffer holds no marker and ends with a non-empty proper prefix of a marker
  prints nothing and is kept in the buffer; a chunk on which a marker is detected prints
  the text of the buffer before that marker, and a newline, and nothing else.
\<close>

theorem live_output_withholds_markers:
  "(events_loop clk init_state es = Inr s \<and> \<not> in_action_phase s \<and> m \<in> set action_markers
      \<and> raw_content s @ ext = a @ m @ b
      \<longrightarrow> printed s @ buffer s = raw_content s \<and> length (printed s) \<le> length a)
   \<and> (events_loop clk init_state es' = Inr s' \<and> in_action_phase s'
      \<longrightarrow> (\<exists>m \<in> set action_markers. \<exists>p T.
             splits_at_first m (raw_content s') p T \<and> printed s' = p @ [CHR 0x0A]))
   \<and> (\<not> in_action_phase s1 \<and> scan_markers action_markers (buffer s1 @ c1) = None
      \<and> m1 \<in> set action_markers \<and> 0 < i \<and> i < length m1 \<and> suffix (take i m1) (buffer s1 @ c1)
      \<longrightarrow> printed (on_content clk s1 c1) = printed s1
          \<and> buffer (on_content clk s1 c1) = buffer s1 @ c1
          \<and> \<not> in_action_phase (on_content clk s1 c1))
   \<and> (\<not> in_action_phase s2 \<and> scan_markers action_markers (buffer s2 @ c2) = Some m2
      \<and> splits_at_first m2 (buffer s2 @ c2) p2 T2
      \<longrightarrow> printed (on_content clk s2 c2) = printed s2 @ p2 @ [CHR 0x0A]
          \<and> in_action_phase (on_content clk s2 c2))"
proof (intro conjI impI)
  assume h: "events_loop clk init_state es = Inr s \<and> \<not> in_action_phase s \<and> m \<in> set action_markers
      \<and> raw_content s @ ext = a @ m @ b"
  then have inv: "stream_inv s"
    using stream_inv_events_loop[OF stream_inv_init] by blast
  with h have raw: "raw_content s = printed s @ buffer s" and c: "clear_of m (printed s)"
    by (auto simp: stream_inv_def)
  from raw show "printed s @ buffer s = raw_content s" by simp
  from h raw have "printed s @ (buffer s @ ext) = a @ m @ b" by simp
  from clear_of_occurrence[OF c this] show "length (printed s) \<le> length a" .
next
  assume h: "events_loop clk init_state es' = Inr s' \<and> in_action_phase s'"
  then have "stream_inv s'"
    using stream_inv_events_loop[OF stream_inv_init] by blast
  with h show "\<exists>m \<in> set action_markers. \<exists>p T.
             splits_at_first m (raw_content s') p T \<and> printed s' = p @ [CHR 0x0A]"
    by (simp add: stream_inv_def)
next
  assume h: "\<not> in_action_phase s1 \<and> scan_markers action_markers (buffer s1 @ c1) = None
      \<and> m1 \<in> set action_markers \<and> 0 < i \<and> i < length m1 \<and> suffix (take i m1) (buffer s1 @ c1)"
  then have pm: "is_potential_marker action_markers (buffer s1 @ c1)"
    unfolding is_potential_marker_iff by blast
  from h have a: "\<not> in_action_phase s1" and n: "scan_markers action_markers (buffer s1 @ c1) = None"
    by simp_all
  from on_content_no_marker(3)[OF a n pm] 
  show "printed (on_content clk s1 c1) = printed s1" 
    and "buffer (on_content clk s1 c1) = buffer s1 @ c1" by simp_all
  from on_content_no_marker(1)[OF a n] show "\<not> in_action_phase (on_content clk s1 c1)" .
next
  assume h: "\<not> in_action_phase s2 \<and> scan_markers action_markers (buffer s2 @ c2) = Some m2
      \<and> splits_at_first m2 (buffer s2 @ c2) p2 T2"
  then have a: "\<not> in_action_phase s2" and n: "scan_markers action_markers (buffer s2 @ c2) = Some m2"
    and sp: "splits_at_first m2 (buffer s2 @ c2) p2 T2"
    by simp_all
  from on_content_detect(2)[OF a n] str_split1_first[OF sp]
  show "printed (on_content clk s2 c2) = printed s2 @ p2 @ [CHR 0x0A]" by simp
  from on_content_detect(1)[OF a n] show "in_action_phase (on_content clk s2 c2)" .
qed

theorem live_output_withholds_markers_witness:
  "(events_loop real init_state [chunk ''hello do(acti''] = Inr withheld_state
      \<and> \<not> in_action_phase withheld_state \<and> ''do(action='' \<in> set action_markers
      \<and> raw_content withheld_state @ ''on=run)'' = ''hello '' @ ''do(action='' @ ''run)''
      \<and> printed withheld_state @ buffer withheld_state = raw_content withheld_state
      \<and> length (printed withheld_state) \<le> length ''hello '')
   \<and> (events_loop real init_state [chunk ''hello do(acti'', chunk ''on=run)''] = Inr detected_state
      \<and> in_action_phase detected_state
      \<and> splits_at_first ''do(action='' (raw_content detected_state) ''hello '' ''run)''
      \<and> printed detected_state = ''hello '' @ [CHR 0x0A])
   \<and> (\<not> in_action_phase init_state
      \<and> scan_markers action_markers (buffer init_state @ ''hello do(acti'') = None
      \<and> ''do(action='' \<in> set action_markers \<and> (0::nat) < 7 \<and> 7 < length ''do(action=''
      \<and> suffix (take 7 ''do(action='') (buffer init_state @ ''hello do(acti'')
      \<and> printed (on_content real init_state ''hello do(acti'') = printed init_state
      \<and> buffer (on_content real init_state ''hello do(acti'') = buffer init_state @ ''hello do(acti''
      \<and> \<not> in_action_phase (on_content real init_state ''hello do(acti''))
   \<and> (\<not> in_action_phase withheld_state
      \<and> scan_markers action_markers (buffer withheld_state @ ''on=run)'') = Some ''do(action=''
      \<and> splits_at_first ''do(action='' (buffer withheld_state @ ''on=run)'') ''hello '' ''run)''
      \<and> printed (on_content real withheld_state ''on=run)'')
          = printed withheld_state @ ''hello '' @ [CHR 0x0A]
      \<and> in_action_phase (on_content real withheld_state ''on=run)''))"
proof -
  have h1: "events_loop real init_state [chunk ''hello do(acti''] = Inr withheld_state
      \<and> \<not> in_action_phase withheld_state \<and> ''do(action='' \<in> set action_markers
      \<and> raw_content withheld_state @ ''on=run)'' = ''hello '' @ ''do(action='' @ ''run)''"
    by code_simp
  have h2: "events_loop real init_state [chunk ''hello do(acti'', chunk ''on=run)''] = Inr detected_state
      \<and> in_action_phase detected_state"
    by code_simp
  have h3: "\<not> in_action_phase init_state
      \<and> scan_markers action_markers (buffer init_state @ ''hello do(acti'') = None
      \<and> ''do(action='' \<in> set action_markers \<and> (0::nat) < 7 \<and> 7 < length ''do(action=''
      \<and> suffix (take 7 ''do(action='') (buffer init_state @ ''hello do(acti'')"
    by code_simp
  have e: "splits_at_first ''do(action='' (raw_content detected_state) ''hello '' ''run)''
      \<and> printed detected_state = ''hello '' @ [CHR 0x0A]"
    by code_simp
  have h4: "\<not> in_action_phase withheld_state
      \<and> scan_markers action_markers (buffer withheld_state @ ''on=run)'') = Some ''do(action=''
      \<and> splits_at_first ''do(action='' (buffer withheld_state @ ''on=run)'') ''hello '' ''run)''"
    by code_simp
  from live_output_withholds_markers[where clk = real
      and es = "[chunk ''hello do(acti'']" and s = withheld_state and m = "''do(action=''"
      and ext = "''on=run)''" and a = "''hello ''" and b = "''run)''"
      and es' = "[chunk ''hello do(acti'', chunk ''on=run)'']" and s' = detected_state
      and ?s1.0 = init_state and ?c1.0 = "''hello do(acti''" and ?m1.0 = "''do(action=''" and i = 7
      and ?s2.0 = withheld_state and ?c2.0 = "''on=run)''" and ?m2.0 = "''do(action=''"
      and ?p2.0 = "''hello ''" and ?T2.0 = "''run)''"]
    h1 h2 h3 h4 e
  show ?thesis by blast
qed

text \<open>
  Claim C7. The result of a request has no \<open>time_to_thinking_end\<close> exactly when no
  marker occurs in the text received. The value is assigned on the first chunk on which
  the scan of the pending buffer finds a marker: it is absent before that chunk and is
  the clock reading taken on it ever after, whatever events follow. Once the action phase
  has begun no further event alters it.
\<close>

theorem thinking_end_set_once:
  "(request clk es = Inr r
      \<longrightarrow> (resp_time_to_thinking_end r = None
            \<longleftrightarrow> (\<forall>m \<in> set action_markers. \<not> str_contains m (resp_raw_content r))))
   \<and> (events_loop clk init_state es1 = Inr s1 \<and> Done \<notin> set es1 \<and> \<not> in_action_phase s1
        \<and> event_text e \<noteq> [] \<and> scan_markers action_markers (buffer s1 @ event_text e) = Some m
        \<and> events_loop clk init_state (es1 @ e # es2) = Inr s2
      \<longrightarrow> time_to_thinking_end s1 = None
          \<and> time_to_thinking_end s2
              = Some (clk (if first_token_received s1 then ticks s1 else Suc (ticks s1)) - clk 0))
   \<and> (in_action_phase s \<and> events_loop clk s es' = Inr s'
      \<longrightarrow> time_to_thinking_end s' = time_to_thinking_end s)"
proof (intro conjI impI)
  assume h: "request clk es = Inr r"
  then obtain s where s: "events_loop clk init_state es = Inr s"
      "resp_time_to_thinking_end r = time_to_thinking_end s" "resp_raw_content r = raw_content s"
    by (auto simp: request_def Let_def split: sum.splits prod.splits)
  have inv: "stream_inv s"
    using stream_inv_events_loop[OF stream_inv_init s(1)] .
  show "resp_time_to_thinking_end r = None
            \<longleftrightarrow> (\<forall>m \<in> set action_markers. \<not> str_contains m (resp_raw_content r))"
  proof (cases "in_action_phase s")
    case True
    with inv in_action_has_marker[OF inv True] show ?thesis
      by (auto simp: s(2,3) str_contains_sublist stream_inv_def)
  next
    case False
    with inv not_in_action_no_marker[OF inv False] show ?thesis
      by (auto simp: s(2,3) str_contains_sublist stream_inv_def)
  qed
next
  assume h: "events_loop clk init_state es1 = Inr s1 \<and> Done \<notin> set es1 \<and> \<not> in_action_phase s1
        \<and> event_text e \<noteq> [] \<and> scan_markers action_markers (buffer s1 @ event_text e) = Some m
        \<and> events_loop clk init_state (es1 @ e # es2) = Inr s2"
  then have inv: "stream_inv s1"
    using stream_inv_events_loop[OF stream_inv_init] by blast
  with h have none: "time_to_thinking_end s1 = None" by (simp add: stream_inv_def)
  from h have a: "\<not> in_action_phase s1"
    and n: "scan_markers action_markers (buffer s1 @ event_text e) = Some m" by simp_all
  note d = on_content_detect[OF a n, of clk]
  from h have dn: "Done \<notin> set es1" and l1: "events_loop clk init_state es1 = Inr s1"
    and l2: "events_loop clk init_state (es1 @ e # es2) = Inr s2" and ne: "event_text e \<noteq> []"
    by simp_all
  have "events_loop clk init_state (es1 @ e # es2) = events_loop clk s1 (e # es2)"
    using events_loop_append[OF dn] l1 by simp
  with l2 have "events_loop clk (on_content clk s1 (event_text e)) es2 = Inr s2"
    using event_text_step[OF ne] by simp
  from events_loop_action[OF d(1) this] d(3) none
  show "time_to_thinking_end s1 = None"
    and "time_to_thinking_end s2
              = Some (clk (if first_token_received s1 then ticks s1 else Suc (ticks s1)) - clk 0)"
    by simp_all
next
  assume "in_action_phase s \<and> events_loop clk s es' = Inr s'"
  then show "time_to_thinking_end s' = time_to_thinking_end s"
    using events_loop_action by blast
qed

theorem thinking_end_set_once_witness:
  "(request real [chunk ''hello''] =
       Inr \<lparr>thinking = '''', action = ''hello'', resp_raw_content = ''hello'',
            resp_time_to_first_token = Some 1, resp_time_to_thinking_end = None,
            total_time = 2\<rparr>
      \<and> \<not> str_contains ''finish(message='' ''hello'' \<and> \<not> str_contains ''do(action='' ''hello'')
   \<and> (events_loop real init_state [chunk ''hello do(acti''] = Inr withheld_state
      \<and> Done \<notin> set [chunk ''hello do(acti''] \<and> \<not> in_action_phase withheld_state
      \<and> event_text (chunk ''on=run)'') \<noteq> []
      \<and> scan_markers action_markers (buffer withheld_state @ event_text (chunk ''on=run)''))
          = Some ''do(action=''
      \<and> events_loop real init_state ([chunk ''hello do(acti''] @ chunk ''on=run)'' # [Malformed, Done])
          = Inr detected_state
      \<and> time_to_thinking_end withheld_state = None
      \<and> time_to_thinking_end detected_state = Some 2)
   \<and> (in_action_phase detected_state
      \<and> events_loop real detected_state [chunk ''zzz'']
          = Inr (detected_state\<lparr>raw_content := ''hello do(action=run)zzz''\<rparr>)
      \<and> time_to_thinking_end (detected_state\<lparr>raw_content := ''hello do(action=run)zzz''\<rparr>)
          = time_to_thinking_end detected_state)"
proof -
  have h1: "request real [chunk ''hello''] =
       Inr \<lparr>thinking = '''', action = ''hello'', resp_raw_content = ''hello'',
            resp_time_to_first_token = Some 1, resp_time_to_thinking_end = None,
            total_time = 2\<rparr>"
    by code_simp
  have h2: "events_loop real init_state [chunk ''hello do(acti''] = Inr withheld_state
      \<and> Done \<notin> set [chunk ''hello do(acti''] \<and> \<not> in_action_phase withheld_state
      \<and> event_text (chunk ''on=run)'') \<noteq> []
      \<and> scan_markers action_markers (buffer withheld_state @ event_text (chunk ''on=run)''))
          = Some ''do(action=''
      \<and> events_loop real init_state ([chunk ''hello do(acti''] @ chunk ''on=run)'' # [Malformed, Done])
          = Inr detected_state"
    by code_simp
  have h3: "in_action_phase detected_state
      \<and> events_loop real detected_state [chunk ''zzz'']
          = Inr (detected_state\<lparr>raw_content := ''hello do(action=run)zzz''\<rparr>)"
    by code_simp
  have e: "first_token_received withheld_state" "ticks withheld_state = 2"
    by (simp_all add: withheld_state_def)
  from thinking_end_set_once[where clk = real and es = "[chunk ''hello'']"
      and r = "\<lparr>thinking = '''', action = ''hello'', resp_raw_content = ''hello'',
            resp_time_to_first_token = Some 1, resp_time_to_thinking_end = None,
            total_time = 2\<rparr>"
      and ?es1.0 = "[chunk ''hello do(acti'']" and ?s1.0 = withheld_state
      and e = "chunk ''on=run)''" and m = "''do(action=''" and ?es2.0 = "[Malformed, Done]"
      and ?s2.0 = detected_state and s = detected_state and es' = "[chunk ''zzz'']"
      and s' = "detected_state\<lparr>raw_content := ''hello do(action=run)zzz''\<rparr>"]
    h1 h2 h3 e
  show ?thesis by (simp add: action_markers_def)
qed

text \<open>
  Claim C8. The result of a request has no \<open>time_to_first_token\<close> exactly when none of
  the events processed carries a non-empty delta content. The value is assigned on the
  first event that carries one: it is absent before that event and is the first clock
  reading after the start ever after, whatever events follow. Once it has a value no
  further event alters it.
\<close>

theorem first_token_set_once:
  "(request clk es = Inr r
      \<longrightarrow> (resp_time_to_first_token r = None \<longleftrightarrow> (\<forall>e \<in> set (processed es). event_text e = [])))
   \<and> ((\<forall>e \<in> set es1. event_text e = []) \<and> Done \<notin> set es1 \<and> event_text e1 \<noteq> []
        \<and> events_loop clk init_state es1 = Inr s1
        \<and> events_loop clk init_state (es1 @ e1 # es2) = Inr s2
      \<longrightarrow> time_to_first_token s1 = None \<and> time_to_first_token s2 = Some (clk 1 - clk 0))
   \<and> (events_loop clk init_state es3 = Inr s3 \<and> time_to_first_token s3 = Some t
        \<and> events_loop clk s3 es4 = Inr s4
      \<longrightarrow> time_to_first_token s4 = Some t)"
proof (intro conjI impI)
  assume h: "request clk es = Inr r"
  then obtain s where s: "events_loop clk init_state es = Inr s"
      "resp_time_to_first_token r = time_to_first_token s"
    by (auto simp: request_def Let_def split: sum.splits prod.splits)
  have inv: "stream_inv s"
    using stream_inv_events_loop[OF stream_inv_init s(1)] .
  have "raw_content s = concat (map event_text (processed es))"
    using events_loop_raw_content[OF s(1)] by (simp add: init_state_def)
  then have "raw_content s = [] \<longleftrightarrow> (\<forall>e \<in> set (processed es). event_text e = [])"
    by auto
  with inv show "resp_time_to_first_token r = None \<longleftrightarrow> (\<forall>e \<in> set (processed es). event_text e = [])"
    by (auto simp: s(2) stream_inv_def)
next
  assume h: "(\<forall>e \<in> set es1. event_text e = []) \<and> Done \<notin> set es1 \<and> event_text e1 \<noteq> []
        \<and> events_loop clk init_state es1 = Inr s1
        \<and> events_loop clk init_state (es1 @ e1 # es2) = Inr s2"
  then have s1: "s1 = init_state" using events_loop_silent by blast
  from h have dn: "Done \<notin> set es1" and l1: "events_loop clk init_state es1 = Inr s1"
    and l2: "events_loop clk init_state (es1 @ e1 # es2) = Inr s2" and ne: "event_text e1 \<noteq> []"
    by simp_all
  have "events_loop clk init_state (es1 @ e1 # es2) = events_loop clk s1 (e1 # es2)"
    using events_loop_append[OF dn] l1 by simp
  with l2 have "events_loop clk (on_content clk init_state (event_text e1)) es2 = Inr s2"
    using event_text_step[OF ne] by (simp add: s1)
  from events_loop_first_token[OF _ this]
  have "time_to_first_token s2 = Some (clk 1 - clk 0)"
    by (simp add: on_content_ttft) (simp add: init_state_def)
  then show "time_to_first_token s1 = None" and "time_to_first_token s2 = Some (clk 1 - clk 0)"
    by (simp_all add: s1 init_state_def)
next
  assume h: "events_loop clk init_state es3 = Inr s3 \<and> time_to_first_token s3 = Some t
        \<and> events_loop clk s3 es4 = Inr s4"
  then have "stream_inv s3"
    using stream_inv_events_loop[OF stream_inv_init] by blast
  with h have "first_token_received s3" by (simp add: stream_inv_def)
  from events_loop_first_token[OF this] h show "time_to_first_token s4 = Some t" by auto
qed

theorem first_token_set_once_witness:
  "(request real [Malformed, Payload (JObj []), Done, chunk ''late''] =
       Inr \<lparr>thinking = '''', action = '''', resp_raw_content = '''',
            resp_time_to_first_token = None, resp_time_to_thinking_end = None,
            total_time = 1\<rparr>
      \<and> processed [Malformed, Payload (JObj []), Done, chunk ''late'']
          = [Malformed, Payload (JObj [])]
      \<and> event_text Malformed = [] \<and> event_text (Payload (JObj [])) = [])
   \<and> (Done \<notin> set [Malformed, Payload (JObj [])]
      \<and> event_text (chunk ''hello do(acti'') \<noteq> []
      \<and> events_loop real init_state [Malformed, Payload (JObj [])] = Inr init_state
      \<and> events_loop real init_state
           ([Malformed, Payload (JObj [])] @ chunk ''hello do(acti'' # [chunk ''on=run)''])
          = Inr detected_state
      \<and> time_to_first_token init_state = None
      \<and> time_to_first_token detected_state = Some 1)
   \<and> (events_loop real init_state [chunk ''hello do(acti''] = Inr withheld_state
      \<and> time_to_first_token withheld_state = Some 1
      \<and> events_loop real withheld_state [chunk ''on=run)''] = Inr detected_state
      \<and> time_to_first_token detected_state = Some 1)"
proof -
  have h1: "request real [Malformed, Payload (JObj []), Done, chunk ''late''] =
       Inr \<lparr>thinking = '''', action = '''', resp_raw_content = '''',
            resp_time_to_first_token = None, resp_time_to_thinking_end = None,
            total_time = 1\<rparr>"
    by code_simp
  have h2: "(\<forall>e \<in> set [Malformed, Payload (JObj [])]. event_text e = [])
      \<and> Done \<notin> set [Malformed, Payload (JObj [])]
      \<and> event_text (chunk ''hello do(acti'') \<noteq> []
      \<and> events_loop real init_state [Malformed, Payload (JObj [])] = Inr init_state
      \<and> events_loop real init_state
           ([Malformed, Payload (JObj [])] @ chunk ''hello do(acti'' # [chunk ''on=run)''])
          = Inr detected_state"
    by code_simp
  have p: "processed [Malformed, Payload (JObj []), Done, chunk ''late'']
          = [Malformed, Payload (JObj [])]"
    by code_simp
  have h3: "events_loop real init_state [chunk ''hello do(acti''] = Inr withheld_state
      \<and> time_to_first_token withheld_state = Some 1
      \<and> events_loop real withheld_state [chunk ''on=run)''] = Inr detected_state"
    by code_simp
  from first_token_set_once[where clk = real
      and es = "[Malformed, Payload (JObj []), Done, chunk ''late'']"
      and r = "\<lparr>thinking = '''', action = '''', resp_raw_content = '''',
            resp_time_to_first_token = None, resp_time_to_thinking_end = None,
            total_time = 1\<rparr>"
      and ?es1.0 = "[Malformed, Payload (JObj [])]" and ?e1.0 = "chunk ''hello do(acti''"
      and ?s1.0 = init_state and ?es2.0 = "[chunk ''on=run)'']" and ?s2.0 = detected_state
      and ?es3.0 = "[chunk ''hello do(acti'']" and ?s3.0 = withheld_state and t = 1
      and ?es4.0 = "[chunk ''on=run)'']" and ?s4.0 = detected_state]
    h1 h2 h3 p
  show ?thesis by simp
qed

end
